theory Spec2Isabelle
  imports Main "HOL-Library.Word" "HOL-Library.Monad_Syntax"
begin

unbundle bit_operations_syntax

section \<open>Data model of hash.go\<close>

type_synonym byte = "8 word"
type_synonym uint64 = "64 word"

text \<open>
  \<^verbatim>\<open>type Uint128 [2]uint64 // { high, low }\<close>: index 0 is the high limb, index 1 the
  low limb. The constructor takes the two elements in index order, as the Go composite
  literal \<^verbatim>\<open>Uint128{x, y}\<close> does.
\<close>

datatype Uint128 = Uint128 (high: uint64) (low: uint64)

text \<open>The unsigned 128-bit value a \<^typ>\<open>Uint128\<close> stands for.\<close>

definition val128 :: "Uint128 \<Rightarrow> nat" where
  "val128 x = unat (high x) * 2 ^ 64 + unat (low x)"

definition BlockSize :: nat where
  "BlockSize = 128"

definition magicTable :: "uint64 list" where
  "magicTable =
    [0x95C05F4D1512959E, 0xE4F3C46EEF0DCF07,
     0x6238DC228F980AD2, 0x53F3E3BC49607092,
     0x4E7BE7069078D625, 0x1016D709D1AD25FC,
     0x044E89B8AC76E045, 0xE0B684DDA364BFA1,
     0x90C533B835E89E5F, 0x3DAF462A74FA874F,
     0xFEA54965DD3EF5A0, 0x287A5D7CCB31B970,
     0xAE681046800752F8, 0x121C2D6EAF66EC6E,
     0xEE8F8CA7E090FB20, 0xCE1AE25F48FE0A52]"

definition magicRound :: Uint128 where
  "magicRound = Uint128 0x78F32468CD48D6DE 0x14C983660183C0AE"

definition magicFinal :: Uint128 where
  "magicFinal = Uint128 0xBDB31B10864F3F87 0x5B7E9E828A9B8ABD"

section \<open>Wide-integer arithmetic\<close>

text \<open>
  \<^verbatim>\<open>Cmp\<close>: the limb compared is the high one unless the high limbs are equal.
\<close>

definition Cmp :: "Uint128 \<Rightarrow> Uint128 \<Rightarrow> int" where
  "Cmp a b =
    (let (x, y) = (if high a = high b then (low a, low b) else (high a, high b))
     in if x < y then -1 else if x > y then 1 else 0)"

text \<open>
  \<^verbatim>\<open>Add\<close>: both limbs are added with wrap-around, then the high limb is incremented
  when the low sum is below the argument's low limb.
\<close>

definition Add :: "Uint128 \<Rightarrow> Uint128 \<Rightarrow> Uint128" where
  "Add a b =
    (let sum0 = high a + high b; sum1 = low a + low b
     in if sum1 < low b then Uint128 (sum0 + 1) sum1 else Uint128 sum0 sum1)"

definition And :: "Uint128 \<Rightarrow> Uint128 \<Rightarrow> Uint128" where
  "And a b = Uint128 (high a AND high b) (low a AND low b)"

text \<open>
  \<^verbatim>\<open>mul64_128\<close> multiplies in \<^verbatim>\<open>math/big\<close>: the product is an unbounded integer,
  \<^verbatim>\<open>Rsh(zprod, 64)\<close> is its upper part, and \<^verbatim>\<open>Uint64()\<close> takes the low 64 bits of
  its argument.
\<close>

definition mul64_128 :: "uint64 \<Rightarrow> uint64 \<Rightarrow> Uint128" where
  "mul64_128 a b =
    (let zprod = uint a * uint b;
         zhi = drop_bit 64 zprod
     in Uint128 (word_of_int zhi) (word_of_int zprod))"

section \<open>Block combiner\<close>

definition hashMulAdd :: "Uint128 \<Rightarrow> Uint128 \<Rightarrow> Uint128 \<Rightarrow> Uint128" where
  "hashMulAdd h m a =
    (let a0 = drop_bit 32 (push_bit 32 (low a));
         a1 = drop_bit 32 (low a);
         a23 = high a;
         m0 = drop_bit 32 (push_bit 32 (low m));
         m1 = drop_bit 32 (low m);
         m2 = drop_bit 32 (push_bit 32 (high m));
         m3 = drop_bit 32 (high m);
         h0 = drop_bit 32 (push_bit 32 (low h));
         h1 = drop_bit 32 (low h);
         h2 = drop_bit 32 (push_bit 32 (high h));
         h3 = drop_bit 32 (high h);
         c0 = h0 * m0;
         c1 = h0 * m1 + h1 * m0;
         c2 = h0 * m2 + h1 * m1 + h2 * m0;
         c3 = h0 * m3 + h1 * m2 + h2 * m1 + h3 * m0;
         c4 = h1 * m3 + h2 * m2 + h3 * m1;
         c5 = h2 * m3 + h3 * m2;
         c6 = h3 * m3;
         r2 = c2 + push_bit 1 c6 + a23;
         r3 = c3 + drop_bit 32 r2;
         r0 = c0 + push_bit 1 c4 + a0 + drop_bit 31 r3;
         r1 = c1 + push_bit 1 c5 + a1 + drop_bit 32 r0
     in Uint128
          ((drop_bit 1 (push_bit 33 r3) OR drop_bit 32 (push_bit 32 r2)) + drop_bit 32 r1)
          (push_bit 32 r1 OR drop_bit 32 (push_bit 32 r0)))"

section \<open>Slices\<close>

text \<open>
  A Go slice expression panics when its bounds are out of range, and so does an index
  expression. Each is an \<^typ>\<open>'a option\<close> here, \<^const>\<open>None\<close> standing for the
  panic. The upper bound is checked against the length of the list; Go checks
  it against the capacity, which is never smaller.
\<close>

definition subslice :: "'a list \<Rightarrow> nat \<Rightarrow> nat \<Rightarrow> 'a list option" where
  "subslice xs lo hi =
    (if lo \<le> hi \<and> hi \<le> length xs then Some (take (hi - lo) (drop lo xs)) else None)"

definition slice_from :: "'a list \<Rightarrow> nat \<Rightarrow> 'a list option" where
  "slice_from xs lo = subslice xs lo (length xs)"

definition index :: "'a list \<Rightarrow> nat \<Rightarrow> 'a option" where
  "index xs i = (if i < length xs then Some (xs ! i) else None)"

text \<open>\<^verbatim>\<open>copy(dst, src)\<close> overwrites the first \<open>min (len dst) (len src)\<close> elements.\<close>

definition copy :: "'a list \<Rightarrow> 'a list \<Rightarrow> 'a list" where
  "copy dst src = (let n = min (length dst) (length src) in take n src @ drop n dst)"

text \<open>
  \<^verbatim>\<open>binary.LittleEndian.Uint64\<close> reads eight bytes, least significant first, and
  panics on a shorter slice.
\<close>

definition le64 :: "byte list \<Rightarrow> uint64" where
  "le64 b =
    ucast (b ! 0) OR push_bit 8 (ucast (b ! 1)) OR push_bit 16 (ucast (b ! 2))
      OR push_bit 24 (ucast (b ! 3)) OR push_bit 32 (ucast (b ! 4))
      OR push_bit 40 (ucast (b ! 5)) OR push_bit 48 (ucast (b ! 6))
      OR push_bit 56 (ucast (b ! 7))"

definition LittleEndian_Uint64 :: "byte list \<Rightarrow> uint64 option" where
  "LittleEndian_Uint64 b = (if length b < 8 then None else Some (le64 b))"

section \<open>Block absorber\<close>

text \<open>
  The loop of \<^verbatim>\<open>hashBlock\<close>, with its three variables \<^verbatim>\<open>hash\<close>, \<^verbatim>\<open>magicIdx\<close>
  and \<^verbatim>\<open>offset\<close>.
\<close>

function hashBlock_loop :: "byte list \<Rightarrow> Uint128 \<Rightarrow> nat \<Rightarrow> nat \<Rightarrow> Uint128 option" where
  "hashBlock_loop block hash magicIdx offset =
    (if offset < length block then do {
       s1 \<leftarrow> slice_from block offset;
       a \<leftarrow> LittleEndian_Uint64 s1;
       k1 \<leftarrow> index magicTable magicIdx;
       s2 \<leftarrow> slice_from block (offset + 8);
       b \<leftarrow> LittleEndian_Uint64 s2;
       k2 \<leftarrow> index magicTable (magicIdx + 1);
       hashBlock_loop block (Add hash (mul64_128 (a + k1) (b + k2)))
         (magicIdx + 2) (offset + 16)
     } else Some hash)"
  by pat_completeness auto
termination
  by (relation "measure (\<lambda>(block, hash, magicIdx, offset). length block - offset)") auto

declare hashBlock_loop.simps [simp del]

definition u3fff :: Uint128 where
  "u3fff = Uint128 (NOT (push_bit 62 3)) (NOT 0)"

definition hashBlock :: "byte list \<Rightarrow> Uint128 option" where
  "hashBlock block = do {
     hash \<leftarrow> hashBlock_loop block (Uint128 0 0) 0 0;
     Some (And hash u3fff)
   }"

section \<open>Orchestrator\<close>

text \<open>
  The loop over the full blocks after the first (lines 48 to 52), with its variables
  \<^verbatim>\<open>hash\<close>, \<^verbatim>\<open>offset\<close> and \<^verbatim>\<open>numBlocks\<close>.
\<close>

function hash_loop :: "byte list \<Rightarrow> Uint128 \<Rightarrow> nat \<Rightarrow> nat \<Rightarrow> Uint128 option" where
  "hash_loop input hash offset numBlocks =
    (if numBlocks > 1 then do {
       blk \<leftarrow> subslice input offset (offset + BlockSize);
       hb \<leftarrow> hashBlock blk;
       hash_loop input (hashMulAdd hash magicRound hb) (offset + BlockSize) (numBlocks - 1)
     } else Some hash)"
  by pat_completeness auto
termination
  by (relation "measure (\<lambda>(input, hash, offset, numBlocks). numBlocks)") auto

declare hash_loop.simps [simp del]

text \<open>
  Lines 31 to 57 of \<^verbatim>\<open>hash\<close>: the accumulator before finalisation. Lengths and
  offsets are natural numbers (a Go \<^verbatim>\<open>int\<close> holds every length of a slice).
\<close>

definition hash_absorb :: "byte list \<Rightarrow> Uint128 option" where
  "hash_absorb input =
    (let numBlocks = length input div BlockSize;
         tailLen = length input mod BlockSize;
         tail = replicate (16 * ((tailLen + 15) div 16)) 0
     in do {
       src \<leftarrow> slice_from input (length input - tailLen);
       let tail = copy tail src;
       hash \<leftarrow> (if numBlocks > 0 then do {
                   b0 \<leftarrow> subslice input 0 BlockSize;
                   hashBlock b0
                 } else hashBlock tail);
       let hash = Add hash magicRound;
       if numBlocks > 0 then do {
         hash \<leftarrow> hash_loop input hash BlockSize numBlocks;
         if tailLen > 0 then do {
           ht \<leftarrow> hashBlock tail;
           Some (hashMulAdd hash magicRound ht)
         } else Some hash
       } else Some hash
     })"

section \<open>Finaliser\<close>

text \<open>Line 60.\<close>

definition u7fff :: Uint128 where
  "u7fff = Uint128 (NOT (push_bit 63 1)) (NOT 0)"

text \<open>Line 62.\<close>

definition final_add_len :: "Uint128 \<Rightarrow> nat \<Rightarrow> Uint128" where
  "final_add_len hash tailLen = Add hash (Uint128 (of_nat (tailLen * 8)) 0)"

text \<open>Lines 63 to 66.\<close>

definition final_reduce127 :: "Uint128 \<Rightarrow> Uint128" where
  "final_reduce127 hash =
    (let hash = (if Cmp hash u7fff \<ge> 0 then Add hash (Uint128 0 1) else hash)
     in And hash u7fff)"

text \<open>Lines 68 to 80: the two lanes \<^verbatim>\<open>A\<close> and \<^verbatim>\<open>B\<close>.\<close>

definition final_lanes :: "Uint128 \<Rightarrow> uint64 \<times> uint64" where
  "final_lanes hash =
    (let X = high hash + drop_bit 32 (low hash);
         X = drop_bit 32 (X + drop_bit 32 X + 1) + high hash;
         Y = push_bit 32 X + low hash;
         A = X + high magicFinal;
         A = (if A < X then A + 0x101 else A);
         B = Y + low magicFinal;
         B = (if B < Y then B + 0x101 else B)
     in (A, B))"

text \<open>The statement of line 83, repeated on line 84.\<close>

definition final_reduce :: "Uint128 \<Rightarrow> Uint128" where
  "final_reduce hash = Add (mul64_128 (high hash) 0x101) (Uint128 0 (low hash))"

text \<open>Lines 86 to 94.\<close>

definition final_result :: "Uint128 \<Rightarrow> uint64" where
  "final_result hash =
    (let result = low hash;
         result = (if high hash \<noteq> 0 then result + 0x101 else result);
         result = (if result > 0xFFFFFFFFFFFFFEFE then result + 0x101 else result)
     in result)"

text \<open>Lines 59 to 94 of \<^verbatim>\<open>hash\<close>.\<close>

definition hash_finalize :: "Uint128 \<Rightarrow> nat \<Rightarrow> uint64" where
  "hash_finalize hash tailLen =
    (let hash = final_add_len hash tailLen;
         hash = final_reduce127 hash;
         (A, B) = final_lanes hash;
         hash = mul64_128 A B;
         hash = final_reduce hash;
         hash = final_reduce hash
     in final_result hash)"

definition hash :: "byte list \<Rightarrow> uint64 option" where
  "hash input = do {
     h \<leftarrow> hash_absorb input;
     Some (hash_finalize h (length input mod BlockSize))
   }"

section \<open>The absorber and the orchestrator as the specification words them\<close>

text \<open>
  Lane \<open>k\<close> of a block: the two little-endian words at byte offsets \<open>16 * k\<close> and
  \<open>16 * k + 8\<close>, each plus the next entry of the magic table, multiplied exactly.
\<close>

definition spec_lane :: "byte list \<Rightarrow> nat \<Rightarrow> Uint128" where
  "spec_lane block k =
    mul64_128 (le64 (drop (16 * k) block) + magicTable ! (2 * k))
              (le64 (drop (16 * k + 8) block) + magicTable ! (2 * k + 1))"

text \<open>
  The absorber: the sum of the lanes under \<^const>\<open>Add\<close>, masked with
  \<^verbatim>\<open>0x3fffffffffffffffffffffffffffffff\<close>.
\<close>

definition spec_absorb :: "byte list \<Rightarrow> Uint128" where
  "spec_absorb block =
    And (foldl (\<lambda>sum k. Add sum (spec_lane block k)) (Uint128 0 0) [0..<length block div 16])
        (Uint128 0x3fffffffffffffff 0xffffffffffffffff)"

text \<open>
  The zero-padded tail: the last \<open>n mod 128\<close> bytes of the input, then zeros up to
  the next multiple of 16.
\<close>

definition spec_paddedTail :: "byte list \<Rightarrow> byte list" where
  "spec_paddedTail input =
    (let tailLen = length input mod 128
     in drop (length input - tailLen) input
        @ replicate (16 * ((tailLen + 15) div 16) - tailLen) 0)"

text \<open>Full block \<open>k\<close> of the input, counted from 0.\<close>

definition spec_block :: "byte list \<Rightarrow> nat \<Rightarrow> byte list" where
  "spec_block input k = take 128 (drop (128 * k) input)"

text \<open>Folding the full blocks \<open>1..numBlocks-1\<close>, in order, into an accumulator.\<close>

definition spec_fold_blocks :: "byte list \<Rightarrow> Uint128 \<Rightarrow> Uint128" where
  "spec_fold_blocks input h =
    foldl (\<lambda>h k. hashMulAdd h magicRound (spec_absorb (spec_block input k))) h
      [1..<length input div 128]"

definition spec_orchestrate :: "byte list \<Rightarrow> Uint128" where
  "spec_orchestrate input =
    (let numBlocks = length input div 128;
         tailLen = length input mod 128
     in if numBlocks > 0 then
          (let h = spec_fold_blocks input (Add (spec_absorb (spec_block input 0)) magicRound)
           in if tailLen > 0 then hashMulAdd h magicRound (spec_absorb (spec_paddedTail input))
              else h)
        else Add (spec_absorb (spec_paddedTail input)) magicRound)"

section \<open>The combiner as the specification words it\<close>

text \<open>
  Limb \<open>i\<close> of a 128-bit value, \<open>i = 0\<close> the least significant of its four 32-bit
  limbs.
\<close>

definition limb32 :: "Uint128 \<Rightarrow> nat \<Rightarrow> nat" where
  "limb32 x i = val128 x div 2 ^ (32 * i) mod 2 ^ 32"

text \<open>
  The diagonal sum \<open>k\<close> of the limb products, \<open>\<Sum> h\<^sub>i * m\<^sub>j\<close> over \<open>i + j = k\<close>, as
  an unbounded number.
\<close>

definition diag :: "Uint128 \<Rightarrow> Uint128 \<Rightarrow> nat \<Rightarrow> nat" where
  "diag h m k =
    (\<Sum>i\<leftarrow>[0..<4]. \<Sum>j\<leftarrow>[0..<4]. if i + j = k then limb32 h i * limb32 m j else 0)"

text \<open>The partial product \<open>c\<^sub>k\<close> and the carries \<open>r\<^sub>2, r\<^sub>3, r\<^sub>0, r\<^sub>1\<close>, each modulo \<open>2^64\<close>.\<close>

definition spec_c :: "Uint128 \<Rightarrow> Uint128 \<Rightarrow> nat \<Rightarrow> nat" where
  "spec_c h m k = diag h m k mod 2 ^ 64"

definition spec_r2 :: "Uint128 \<Rightarrow> Uint128 \<Rightarrow> Uint128 \<Rightarrow> nat" where
  "spec_r2 h m a = (spec_c h m 2 + spec_c h m 6 * 2 mod 2 ^ 64 + val128 a div 2 ^ 64) mod 2 ^ 64"

definition spec_r3 :: "Uint128 \<Rightarrow> Uint128 \<Rightarrow> Uint128 \<Rightarrow> nat" where
  "spec_r3 h m a = (spec_c h m 3 + spec_r2 h m a div 2 ^ 32) mod 2 ^ 64"

definition spec_r0 :: "Uint128 \<Rightarrow> Uint128 \<Rightarrow> Uint128 \<Rightarrow> nat" where
  "spec_r0 h m a =
    (spec_c h m 0 + spec_c h m 4 * 2 mod 2 ^ 64 + val128 a mod 2 ^ 32
      + spec_r3 h m a div 2 ^ 31) mod 2 ^ 64"

definition spec_r1 :: "Uint128 \<Rightarrow> Uint128 \<Rightarrow> Uint128 \<Rightarrow> nat" where
  "spec_r1 h m a =
    (spec_c h m 1 + spec_c h m 5 * 2 mod 2 ^ 64 + val128 a div 2 ^ 32 mod 2 ^ 32
      + spec_r0 h m a div 2 ^ 32) mod 2 ^ 64"

text \<open>
  The two limbs of the result: \<^verbatim>\<open>((r3<<33>>1) | (r2<<32>>32)) + (r1>>32)\<close> and
  \<^verbatim>\<open>(r1<<32) | (r0<<32>>32)\<close>, a left shift being a multiplication modulo \<open>2^64\<close>
  and a right shift a division.
\<close>

definition spec_combine_high :: "Uint128 \<Rightarrow> Uint128 \<Rightarrow> Uint128 \<Rightarrow> nat" where
  "spec_combine_high h m a =
    ((spec_r3 h m a * 2 ^ 33 mod 2 ^ 64 div 2 OR spec_r2 h m a * 2 ^ 32 mod 2 ^ 64 div 2 ^ 32)
      + spec_r1 h m a div 2 ^ 32) mod 2 ^ 64"

definition spec_combine_low :: "Uint128 \<Rightarrow> Uint128 \<Rightarrow> Uint128 \<Rightarrow> nat" where
  "spec_combine_low h m a =
    spec_r1 h m a * 2 ^ 32 mod 2 ^ 64 OR spec_r0 h m a * 2 ^ 32 mod 2 ^ 64 div 2 ^ 32"

text \<open>
  The same four sums computed without wrap-around, and the condition that none of
  them needs more than 64 bits.
\<close>

definition wide_r2 :: "Uint128 \<Rightarrow> Uint128 \<Rightarrow> Uint128 \<Rightarrow> nat" where
  "wide_r2 h m a = diag h m 2 + diag h m 6 * 2 + val128 a div 2 ^ 64"

definition wide_r3 :: "Uint128 \<Rightarrow> Uint128 \<Rightarrow> Uint128 \<Rightarrow> nat" where
  "wide_r3 h m a = diag h m 3 + wide_r2 h m a div 2 ^ 32"

definition wide_r0 :: "Uint128 \<Rightarrow> Uint128 \<Rightarrow> Uint128 \<Rightarrow> nat" where
  "wide_r0 h m a =
    diag h m 0 + diag h m 4 * 2 + val128 a mod 2 ^ 32 + wide_r3 h m a div 2 ^ 31"

definition wide_r1 :: "Uint128 \<Rightarrow> Uint128 \<Rightarrow> Uint128 \<Rightarrow> nat" where
  "wide_r1 h m a =
    diag h m 1 + diag h m 5 * 2 + val128 a div 2 ^ 32 mod 2 ^ 32 + wide_r0 h m a div 2 ^ 32"

definition no_wrap :: "Uint128 \<Rightarrow> Uint128 \<Rightarrow> Uint128 \<Rightarrow> bool" where
  "no_wrap h m a =
    (wide_r0 h m a < 2 ^ 64 \<and> wide_r1 h m a < 2 ^ 64
     \<and> wide_r2 h m a < 2 ^ 64 \<and> wide_r3 h m a < 2 ^ 64)"

section \<open>Facts about the wide-integer arithmetic\<close>

lemma unat_lt64: "unat (x :: uint64) < 2 ^ 64"
  using unsigned_less [of x, where ?'a = nat] by simp

lemma val128_Uint128 [simp]: "val128 (Uint128 x y) = unat x * 2 ^ 64 + unat y"
  by (simp add: val128_def)

lemma mod_wrap_once: "a < N \<Longrightarrow> b < N \<Longrightarrow> N \<le> a + b \<Longrightarrow> (a + b) mod N = a + b - N"
  for a b N :: nat
  by (simp add: le_mod_geq)

lemma unat_add64: "unat (x + y) = (unat x + unat y) mod 2 ^ 64" for x y :: uint64
  by (simp add: unat_word_ariths)

text \<open>The comparison \<^verbatim>\<open>sum[1] < b[1]\<close> holds exactly when the low limbs wrapped.\<close>

lemma add_wrap_iff: "(x + y < y) = (2 ^ 64 \<le> unat x + unat y)" for x y :: uint64
proof (cases "unat x + unat y < 2 ^ 64")
  case True
  then have "unat (x + y) = unat x + unat y"
    unfolding unat_add64 by (rule mod_less)
  with True show ?thesis
    unfolding word_less_nat_alt by linarith
next
  case False
  then have "unat (x + y) = unat x + unat y - 2 ^ 64"
    unfolding unat_add64 using unat_lt64 [of x] unat_lt64 [of y]
    by (intro mod_wrap_once) simp_all
  with False unat_lt64 [of x] show ?thesis
    unfolding word_less_nat_alt by linarith
qed

lemma limbs_mod:
  fixes X x :: nat
  assumes "x < 2 ^ 64"
  shows "(X mod 2 ^ 64) * 2 ^ 64 + x = (X * 2 ^ 64 + x) mod 2 ^ 128"
proof -
  have "(X * 2 ^ 64 + x) mod (2 ^ 64 * 2 ^ 64) =
        2 ^ 64 * ((X * 2 ^ 64 + x) div 2 ^ 64 mod 2 ^ 64) + (X * 2 ^ 64 + x) mod 2 ^ 64"
    by (rule mod_mult2_eq)
  with assms show ?thesis by simp
qed

lemma val128_Add: "val128 (Add a b) = (val128 a + val128 b) mod 2 ^ 128"
proof -
  define X Y x y where "X = unat (high a)" and "Y = unat (high b)"
    and "x = unat (low a)" and "y = unat (low b)"
  have lo: "unat (low a + low b) = (x + y) mod 2 ^ 64"
    by (simp add: unat_word_ariths x_def y_def)
  have bx: "x < 2 ^ 64" and bnd: "y < 2 ^ 64" unfolding x_def y_def by (rule unat_lt64)+
  show ?thesis
  proof (cases "low a + low b < low b")
    case True
    then have w: "2 ^ 64 \<le> x + y" by (simp add: add_wrap_iff x_def y_def)
    then have lo': "unat (low a + low b) = x + y - 2 ^ 64"
      using lo bx bnd by (simp add: mod_if)
    have hi: "unat (high a + high b + 1) = (X + Y + 1) mod 2 ^ 64"
      by (simp add: unat_word_ariths X_def Y_def mod_simps)
    have "Add a b = Uint128 (high a + high b + 1) (low a + low b)"
      using True by (simp add: Add_def Let_def)
    then have "val128 (Add a b) = ((X + Y + 1) mod 2 ^ 64) * 2 ^ 64 + (x + y - 2 ^ 64)"
      by (simp only: val128_Uint128 hi lo')
    also have "\<dots> = ((X + Y + 1) * 2 ^ 64 + (x + y - 2 ^ 64)) mod 2 ^ 128"
      using bx bnd by (intro limbs_mod) simp
    also have "(X + Y + 1) * 2 ^ 64 + (x + y - 2 ^ 64) = (X * 2 ^ 64 + x) + (Y * 2 ^ 64 + y)"
      using w by (simp add: algebra_simps)
    finally show ?thesis by (simp add: val128_def X_def Y_def x_def y_def)
  next
    case False
    then have w: "x + y < 2 ^ 64" by (simp add: add_wrap_iff x_def y_def)
    then have lo': "unat (low a + low b) = x + y"
      using lo by simp
    have hi: "unat (high a + high b) = (X + Y) mod 2 ^ 64"
      by (simp add: unat_word_ariths X_def Y_def)
    have "Add a b = Uint128 (high a + high b) (low a + low b)"
      using False by (simp add: Add_def Let_def)
    then have "val128 (Add a b) = ((X + Y) mod 2 ^ 64) * 2 ^ 64 + (x + y)"
      by (simp only: val128_Uint128 hi lo')
    also have "\<dots> = ((X + Y) * 2 ^ 64 + (x + y)) mod 2 ^ 128"
      using w by (intro limbs_mod)
    also have "(X + Y) * 2 ^ 64 + (x + y) = (X * 2 ^ 64 + x) + (Y * 2 ^ 64 + y)"
      by (simp add: algebra_simps)
    finally show ?thesis by (simp add: val128_def X_def Y_def x_def y_def)
  qed
qed

text \<open>
  Claim C7. For all 128-bit \<open>a\<close> and \<open>b\<close>, \<^verbatim>\<open>Add(a, b)\<close> has the value
  \<open>(value a + value b) mod 2^128\<close>; its low limb is the wrapped sum of the low limbs, its
  high limb is the wrapped sum of the high limbs plus one exactly when the computed low
  limb is below \<open>b\<close>'s low limb; and that test is true exactly when the low limbs'
  sum does not fit 64 bits.
\<close>

theorem Add_is_addition_mod_2_128:
  "val128 (Add a b) = (val128 a + val128 b) mod 2 ^ 128
   \<and> low (Add a b) = low a + low b
   \<and> high (Add a b) = (if low (Add a b) < low b then high a + high b + 1 else high a + high b)
   \<and> ((low (Add a b) < low b) = (2 ^ 64 \<le> unat (low a) + unat (low b)))"
proof -
  have l: "low (Add a b) = low a + low b"
    by (simp add: Add_def Let_def)
  have h: "high (Add a b) =
      (if low (Add a b) < low b then high a + high b + 1 else high a + high b)"
    unfolding l by (simp add: Add_def Let_def)
  have w: "(low (Add a b) < low b) = (2 ^ 64 \<le> unat (low a) + unat (low b))"
    unfolding l by (rule add_wrap_iff)
  from val128_Add l h w show ?thesis by (simp only: simp_thms)
qed

section \<open>The absorber computes the masked lane sum\<close>

lemma slice_from_Some: "lo \<le> length xs \<Longrightarrow> slice_from xs lo = Some (drop lo xs)"
  by (simp add: slice_from_def subslice_def)

lemma subslice_Some:
  "lo \<le> hi \<Longrightarrow> hi \<le> length xs \<Longrightarrow> subslice xs lo hi = Some (take (hi - lo) (drop lo xs))"
  by (simp add: subslice_def)

lemma LittleEndian_Uint64_Some: "8 \<le> length b \<Longrightarrow> LittleEndian_Uint64 b = Some (le64 b)"
  by (simp add: LittleEndian_Uint64_def)

lemma index_magicTable: "i < 16 \<Longrightarrow> index magicTable i = Some (magicTable ! i)"
  by (simp add: index_def magicTable_def)

text \<open>One iteration of the loop, when the lane is inside the block and the table.\<close>

lemma hashBlock_loop_step:
  assumes "k < 8" "16 * k + 16 \<le> length block"
  shows "hashBlock_loop block h (2 * k) (16 * k) =
         hashBlock_loop block (Add h (spec_lane block k)) (2 * Suc k) (16 * Suc k)"
proof -
  have s1: "slice_from block (16 * k) = Some (drop (16 * k) block)"
    using assms by (intro slice_from_Some) simp
  have s2: "slice_from block (16 * k + 8) = Some (drop (16 * k + 8) block)"
    using assms by (intro slice_from_Some) simp
  have l1: "LittleEndian_Uint64 (drop (16 * k) block) = Some (le64 (drop (16 * k) block))"
    using assms by (intro LittleEndian_Uint64_Some) simp
  have l2: "LittleEndian_Uint64 (drop (16 * k + 8) block) = Some (le64 (drop (16 * k + 8) block))"
    using assms by (intro LittleEndian_Uint64_Some) simp
  have i1: "index magicTable (2 * k) = Some (magicTable ! (2 * k))"
    using assms by (intro index_magicTable) simp
  have i2: "index magicTable (Suc (2 * k)) = Some (magicTable ! (Suc (2 * k)))"
    using assms by (intro index_magicTable) simp
  have "hashBlock_loop block h (2 * k) (16 * k) =
      hashBlock_loop block (Add h (spec_lane block k)) (2 * k + 2) (16 * k + 16)"
    using assms
    by (subst hashBlock_loop.simps) (simp add: s1 s2 l1 l2 i1 i2 spec_lane_def)
  moreover have "2 * k + 2 = 2 * Suc k" "16 * k + 16 = 16 * Suc k" by simp_all
  ultimately show ?thesis by (simp only:)
qed

lemma hashBlock_loop_lanes:
  "n - k = d \<Longrightarrow> k \<le> n \<Longrightarrow> n \<le> 8 \<Longrightarrow> length block = 16 * n \<Longrightarrow>
   hashBlock_loop block h (2 * k) (16 * k) =
     Some (foldl (\<lambda>sum j. Add sum (spec_lane block j)) h [k..<n])"
proof (induction d arbitrary: k h)
  case 0
  then have "k = n" by simp
  with 0 show ?case by (subst hashBlock_loop.simps) simp
next
  case (Suc d)
  then have kn: "k < n" by simp
  have "hashBlock_loop block h (2 * k) (16 * k) =
         hashBlock_loop block (Add h (spec_lane block k)) (2 * Suc k) (16 * Suc k)"
    using kn Suc.prems by (intro hashBlock_loop_step) simp_all
  also have "\<dots> =
      Some (foldl (\<lambda>sum j. Add sum (spec_lane block j)) (Add h (spec_lane block k)) [Suc k..<n])"
    using kn Suc.prems by (intro Suc.IH) simp_all
  finally show ?case using kn by (simp add: upt_conv_Cons)
qed

text \<open>The table has 16 entries: a ninth lane indexes past its end.\<close>

lemma hashBlock_loop_table_end:
  "offset < length block \<Longrightarrow> 16 \<le> magicIdx \<Longrightarrow> hashBlock_loop block h magicIdx offset = None"
  by (subst hashBlock_loop.simps) (simp add: index_def magicTable_def Option.bind_eq_None_conv)

lemma hashBlock_loop_overrun:
  "8 - k = d \<Longrightarrow> k \<le> 8 \<Longrightarrow> 8 < n \<Longrightarrow> length block = 16 * n \<Longrightarrow>
   hashBlock_loop block h (2 * k) (16 * k) = None"
proof (induction d arbitrary: k h)
  case 0
  then have "k = 8" by simp
  with 0 show ?case by (intro hashBlock_loop_table_end) simp_all
next
  case (Suc d)
  then have k8: "k < 8" by simp
  have "hashBlock_loop block h (2 * k) (16 * k) =
         hashBlock_loop block (Add h (spec_lane block k)) (2 * Suc k) (16 * Suc k)"
    using k8 Suc.prems by (intro hashBlock_loop_step) simp_all
  also have "\<dots> = None"
    using k8 Suc.prems by (intro Suc.IH) simp_all
  finally show ?case .
qed

lemma u3fff_eq: "u3fff = Uint128 0x3fffffffffffffff 0xffffffffffffffff"
  by (simp add: u3fff_def)

lemma hashBlock_spec:
  assumes "length block mod 16 = 0" "length block \<le> 128"
  shows "hashBlock block = Some (spec_absorb block)"
proof -
  define n where "n = length block div 16"
  have len: "length block = 16 * n" using assms(1) by (auto simp: n_def)
  have n8: "n \<le> 8" using assms(2) len by simp
  have "hashBlock_loop block (Uint128 0 0) (2 * 0) (16 * 0) =
     Some (foldl (\<lambda>sum j. Add sum (spec_lane block j)) (Uint128 0 0) [0..<n])"
    using n8 len by (intro hashBlock_loop_lanes [where d = n]) simp_all
  then show ?thesis
    by (simp add: hashBlock_def spec_absorb_def u3fff_eq n_def)
qed

lemma hashBlock_too_long:
  assumes "length block mod 16 = 0" "128 < length block"
  shows "hashBlock block = None"
proof -
  define n where "n = length block div 16"
  have len: "length block = 16 * n" using assms(1) by (auto simp: n_def)
  have "hashBlock_loop block (Uint128 0 0) (2 * 0) (16 * 0) = None"
    using assms(2) len by (intro hashBlock_loop_overrun [where d = 8 and n = n]) simp_all
  then show ?thesis by (simp add: hashBlock_def)
qed

lemma hashBlock_empty: "hashBlock [] = Some (Uint128 0 0)"
  by (simp add: hashBlock_def hashBlock_loop.simps And_def)

text \<open>
  Claim C4, as the code has it. For every block whose length is a multiple of 16 and at
  most 128 (so that the 16-entry table is not overrun), \<^verbatim>\<open>hashBlock\<close> returns the sum,
  under \<^const>\<open>Add\<close> and in lane order, of \<^const>\<open>mul64_128\<close> of the two little-endian
  words of each 16-byte lane, each plus the next entry of the magic table (entries
  \<open>2 * k\<close> and \<open>2 * k + 1\<close> for lane \<open>k\<close>), masked with
  \<^verbatim>\<open>0x3fffffffffffffffffffffffffffffff\<close>; for the empty block it returns the zero
  accumulator.
\<close>

theorem hashBlock_is_masked_lane_sum:
  "(length block mod 16 = 0 \<and> length block \<le> 128 \<longrightarrow> hashBlock block = Some (spec_absorb block))
   \<and> hashBlock [] = Some (Uint128 0 0)"
proof (intro conjI impI)
  assume "length block mod 16 = 0 \<and> length block \<le> 128"
  then show "hashBlock block = Some (spec_absorb block)"
    by (intro hashBlock_spec) (erule conjunct1, erule conjunct2)
next
  show "hashBlock [] = Some (Uint128 0 0)" by (rule hashBlock_empty)
qed

theorem hashBlock_is_masked_lane_sum_witness:
  "hashBlock (replicate 32 7) = Some (spec_absorb (replicate 32 7))"
  using hashBlock_is_masked_lane_sum [of "replicate 32 7"] by simp

text \<open>
  Claim C4 as stated fails on a block of nine lanes: the length is a multiple of 16, and
  the index into the magic table reaches 16, where the Go code panics.
\<close>

theorem hashBlock_nine_lanes_panics:
  "length (replicate 144 (0 :: byte)) mod 16 = 0 \<and> hashBlock (replicate 144 0) = None"
proof -
  have "hashBlock (replicate 144 0) = None"
    by (rule hashBlock_too_long) simp_all
  then show ?thesis by simp
qed

section \<open>Every value of the absorber is below \<open>2^126\<close>\<close>

lemma unat_and_le: "unat (x AND m) \<le> unat m" for x m :: uint64
  by (simp add: word_and_le1 word_le_nat_alt [symmetric])

lemma val128_And_u3fff: "val128 (And h u3fff) < 2 ^ 126"
proof -
  have "unat (high h AND 0x3fffffffffffffff) \<le> unat (0x3fffffffffffffff :: uint64)"
    by (rule unat_and_le)
  then have hi: "unat (high h AND 0x3fffffffffffffff) \<le> 2 ^ 62 - 1" by simp
  have lo: "unat (low h AND 0xffffffffffffffff) < 2 ^ 64" by (rule unat_lt64)
  have "unat (high h AND 0x3fffffffffffffff) * 2 ^ 64 + unat (low h AND 0xffffffffffffffff)
      < (2 ^ 62 - 1) * 2 ^ 64 + 2 ^ 64"
    using hi lo by (meson add_le_less_mono mult_le_mono1)
  then show ?thesis
    by (simp add: And_def u3fff_eq)
qed

lemma high_And_u3fff: "high (And h u3fff) AND 0xC000000000000000 = 0"
proof -
  have "high (And h u3fff) AND 0xC000000000000000 =
      high h AND (0x3fffffffffffffff AND 0xC000000000000000)"
    by (simp add: And_def u3fff_eq and.assoc)
  also have "(0x3fffffffffffffff AND 0xC000000000000000 :: uint64) = 0" by simp
  finally show ?thesis by simp
qed

text \<open>
  Claim C8. Every value \<^verbatim>\<open>hashBlock\<close> returns, on a block of any length, is below
  \<open>2^126\<close>, and the top two bits of its high limb are zero.
\<close>

theorem hashBlock_below_2_126:
  assumes "hashBlock block = Some v"
  shows "val128 v < 2 ^ 126 \<and> high v AND 0xC000000000000000 = 0"
proof -
  from assms obtain y where "v = And y u3fff"
    by (auto simp: hashBlock_def Option.bind_eq_Some_conv)
  then show ?thesis
    using val128_And_u3fff [of y] high_And_u3fff [of y] by (simp only: simp_thms)
qed

theorem hashBlock_below_2_126_witness:
  "val128 (spec_absorb (replicate 128 255)) < 2 ^ 126
   \<and> high (spec_absorb (replicate 128 255)) AND 0xC000000000000000 = 0"
proof -
  have "hashBlock (replicate 128 255) = Some (spec_absorb (replicate 128 255))"
    by (rule hashBlock_spec) simp_all
  then show ?thesis by (rule hashBlock_below_2_126)
qed

section \<open>The orchestrator\<close>

lemma hash_loop_blocks:
  "nb - k = d \<Longrightarrow> 1 \<le> k \<Longrightarrow> k \<le> nb \<Longrightarrow> 128 * nb \<le> length input \<Longrightarrow>
   hash_loop input h (128 * k) (nb - k + 1) =
     Some (foldl (\<lambda>h j. hashMulAdd h magicRound (spec_absorb (spec_block input j))) h [k..<nb])"
proof (induction d arbitrary: k h)
  case 0
  then have "k = nb" by simp
  then show ?case by (subst hash_loop.simps) simp
next
  case (Suc d)
  then have kn: "k < nb" by simp
  have sl: "subslice input (128 * k) (128 * k + BlockSize) = Some (spec_block input k)"
    unfolding spec_block_def BlockSize_def
    using kn Suc.prems by (subst subslice_Some) simp_all
  have len: "length (spec_block input k) = 128"
    using kn Suc.prems by (simp add: spec_block_def)
  have hb: "hashBlock (spec_block input k) = Some (spec_absorb (spec_block input k))"
    by (rule hashBlock_spec) (simp_all add: len)
  let ?h' = "hashMulAdd h magicRound (spec_absorb (spec_block input k))"
  have IH: "hash_loop input ?h' (128 * Suc k) (nb - Suc k + 1) =
      Some (foldl (\<lambda>h j. hashMulAdd h magicRound (spec_absorb (spec_block input j))) ?h' [Suc k..<nb])"
    using kn Suc.prems by (intro Suc.IH) simp_all
  have "hash_loop input h (128 * k) (nb - k + 1) =
      hash_loop input ?h' (128 * k + BlockSize) (nb - k + 1 - 1)"
    using kn by (subst hash_loop.simps) (simp add: sl hb)
  also have "\<dots> = hash_loop input ?h' (128 * Suc k) (nb - Suc k + 1)"
    using kn by (simp add: BlockSize_def add.commute Suc_diff_Suc)
  finally show ?case using kn IH by (simp add: upt_conv_Cons)
qed

lemma pad16_ge: "t \<le> 16 * ((t + 15) div 16)" for t :: nat
proof -
  have "(t + 15) div 16 * 16 + (t + 15) mod 16 = t + 15" by (rule div_mult_mod_eq)
  moreover have "(t + 15) mod 16 < 16" by simp
  ultimately show ?thesis by linarith
qed

lemma pad16_le: "t < 128 \<Longrightarrow> 16 * ((t + 15) div 16) \<le> 128" for t :: nat
proof -
  assume "t < 128"
  then have "(t + 15) div 16 \<le> 142 div 16" by (intro div_le_mono) simp
  then show ?thesis by simp
qed

text \<open>The buffer \<^verbatim>\<open>tail\<close> after the \<^verbatim>\<open>copy\<close> of line 36.\<close>

lemma tail_copy:
  assumes "t = length input mod 128"
  shows "copy (replicate (16 * ((t + 15) div 16)) 0) (drop (length input - t) input) =
         spec_paddedTail input"
proof -
  have "t \<le> length input" using assms by (simp add: mod_le_divisor)
  then have l: "length (drop (length input - t) input) = t" by simp
  have "t \<le> 16 * ((t + 15) div 16)" by (rule pad16_ge)
  then have m: "min (16 * ((t + 15) div 16)) t = t" by simp
  show ?thesis
    unfolding copy_def Let_def spec_paddedTail_def
    using \<open>t \<le> length input\<close> by (simp add: l m assms [symmetric])
qed

lemma length_paddedTail:
  "length (spec_paddedTail input) = 16 * ((length input mod 128 + 15) div 16)"
proof -
  let ?t = "length input mod 128"
  have "?t \<le> length input" by simp
  moreover have "?t \<le> 16 * ((?t + 15) div 16)" by (rule pad16_ge)
  ultimately show ?thesis
    unfolding spec_paddedTail_def Let_def by simp
qed

lemma hashBlock_paddedTail:
  "hashBlock (spec_paddedTail input) = Some (spec_absorb (spec_paddedTail input))"
proof (rule hashBlock_spec)
  show "length (spec_paddedTail input) mod 16 = 0" by (simp add: length_paddedTail)
  have "length input mod 128 < 128" by simp
  then show "length (spec_paddedTail input) \<le> 128"
    unfolding length_paddedTail by (rule pad16_le)
qed

lemma hash_absorb_spec: "hash_absorb input = Some (spec_orchestrate input)"
proof -
  define nb t where "nb = length input div 128" and "t = length input mod 128"
  have src: "slice_from input (length input - t) = Some (drop (length input - t) input)"
    by (rule slice_from_Some) simp
  have tl: "copy (replicate (16 * ((t + 15) div 16)) 0) (drop (length input - t) input) =
         spec_paddedTail input"
    by (rule tail_copy) (simp add: t_def)
  have t': "length input mod BlockSize = t" "length input mod 128 = t"
    by (simp_all add: t_def BlockSize_def)
  show ?thesis
  proof (cases "nb > 0")
    case False
    have nb': "\<not> 0 < length input div BlockSize" "\<not> 0 < length input div 128"
      using False by (simp_all add: nb_def BlockSize_def)
    show ?thesis
      unfolding hash_absorb_def Let_def spec_orchestrate_def t'
      by (simp only: nb' if_False src tl hashBlock_paddedTail Option.bind.simps)
  next
    case True
    then have l128: "128 \<le> length input" by (simp add: nb_def)
    have b0: "subslice input 0 BlockSize = Some (spec_block input 0)"
      unfolding BlockSize_def spec_block_def using l128 by (subst subslice_Some) simp_all
    have hb0: "hashBlock (spec_block input 0) = Some (spec_absorb (spec_block input 0))"
      using l128 by (intro hashBlock_spec) (simp_all add: spec_block_def)
    have "hash_loop input h (128 * 1) (nb - 1 + 1) =
     Some (foldl (\<lambda>h j. hashMulAdd h magicRound (spec_absorb (spec_block input j))) h [1..<nb])" for h
      using True by (intro hash_loop_blocks [where d = "nb - 1"]) (simp_all add: nb_def)
    then have lp: "hash_loop input h BlockSize nb = Some (spec_fold_blocks input h)" for h
      using True by (simp add: BlockSize_def spec_fold_blocks_def nb_def)
    have nb': "0 < length input div BlockSize" "0 < length input div 128"
      using True by (simp_all add: nb_def BlockSize_def)
    have lp': "hash_loop input h BlockSize (length input div BlockSize) =
        Some (spec_fold_blocks input h)" for h
      using lp [of h] by (simp add: nb_def BlockSize_def)
    show ?thesis
      unfolding hash_absorb_def Let_def spec_orchestrate_def t'
      by (simp only: nb' if_True src tl hashBlock_paddedTail b0 hb0 lp' Option.bind.simps
          if_distrib [of Some])
  qed
qed

lemma hash_Some:
  "hash input = Some (hash_finalize (spec_orchestrate input) (length input mod 128))"
  unfolding hash_def hash_absorb_spec BlockSize_def by (simp only: Option.bind.simps)

text \<open>
  Claim C3. For every input of length \<open>n\<close>, with \<open>numBlocks = n div 128\<close> and
  \<open>tailLen = n mod 128\<close>, the accumulator \<^verbatim>\<open>hash\<close> holds before finalisation is: the
  absorbed block 0 if \<open>numBlocks > 0\<close>, otherwise the absorbed zero-padded tail of length
  \<open>16 * ceil(tailLen/16)\<close>; plus the round constant; then blocks \<open>1..numBlocks-1\<close>
  folded in order with \<^const>\<open>hashMulAdd\<close> and the round constant; then the padded
  tail folded only when \<open>numBlocks > 0\<close> and \<open>tailLen > 0\<close>. In particular, when \<open>n\<close>
  is a positive multiple of 128 only the full blocks contribute.
\<close>

theorem hash_absorb_follows_spec:
  "hash_absorb input = Some (spec_orchestrate input)
   \<and> length (spec_paddedTail input) = 16 * ((length input mod 128 + 15) div 16)
   \<and> (0 < length input \<and> length input mod 128 = 0 \<longrightarrow>
        hash_absorb input =
          Some (spec_fold_blocks input (Add (spec_absorb (spec_block input 0)) magicRound)))"
proof (intro conjI impI)
  show "hash_absorb input = Some (spec_orchestrate input)"
    by (rule hash_absorb_spec)
next
  show "length (spec_paddedTail input) = 16 * ((length input mod 128 + 15) div 16)"
    by (rule length_paddedTail)
next
  assume "0 < length input \<and> length input mod 128 = 0"
  then have pos: "0 < length input" and tl: "length input mod 128 = 0" by simp_all
  have "0 < length input div 128"
    using pos tl div_mult_mod_eq [of "length input" 128]
    by (cases "length input div 128") simp_all
  then show "hash_absorb input =
      Some (spec_fold_blocks input (Add (spec_absorb (spec_block input 0)) magicRound))"
    unfolding hash_absorb_spec by (simp add: spec_orchestrate_def tl)
qed

theorem hash_absorb_follows_spec_witness:
  "hash_absorb (replicate 256 1) =
     Some (spec_fold_blocks (replicate 256 1)
             (Add (spec_absorb (spec_block (replicate 256 1) 0)) magicRound))"
proof -
  have "0 < length (replicate 256 (1 :: byte)) \<and> length (replicate 256 (1 :: byte)) mod 128 = 0"
    by simp
  with hash_absorb_follows_spec [of "replicate 256 1"] show ?thesis by blast
qed

text \<open>
  Claim C9. \<^verbatim>\<open>hash\<close> returns a digest on every byte buffer: no slice expression, index
  expression or little-endian read of \<^verbatim>\<open>hash\<close> and \<^verbatim>\<open>hashBlock\<close> is out of range.
\<close>

theorem hash_total: "\<exists>d. hash input = Some d"
  using hash_Some [of input] by (intro exI)

section \<open>The combiner\<close>

subsection \<open>From words to numbers\<close>

lemma unat_shr: "unat (drop_bit n w) = unat w div 2 ^ n" for w :: uint64
  unfolding unat_drop_bit_eq by (rule drop_bit_eq_div)

lemma unat_shl: "unat (push_bit n w) = unat w * 2 ^ n mod 2 ^ 64" for w :: uint64
  unfolding unsigned_push_bit_eq
  by (simp add: take_bit_eq_mod [where ?'a = nat] push_bit_eq_mult [where ?'a = nat])

lemma unat_or: "unat (x OR y) = unat x OR unat y" for x y :: uint64
  by (rule unsigned_or_eq)

lemma unat_mult64: "unat (x * y) = unat x * unat y mod 2 ^ 64" for x y :: uint64
  by (simp add: unat_word_ariths)

lemma shl_shr_mod: "x * 2 ^ n mod 2 ^ (n + k) div 2 ^ n = x mod 2 ^ k" for x :: nat
proof -
  have "x * 2 ^ n mod 2 ^ (n + k) = 2 ^ n * x mod (2 ^ n * 2 ^ k)"
    by (simp add: power_add mult.commute)
  also have "\<dots> = 2 ^ n * (x mod 2 ^ k)" by (rule mult_mod_right [symmetric])
  finally show ?thesis by simp
qed

lemma diag_0: "diag h m 0 = limb32 h 0 * limb32 m 0"
  and diag_1: "diag h m 1 = limb32 h 0 * limb32 m 1 + limb32 h 1 * limb32 m 0"
  and diag_2: "diag h m 2 = limb32 h 0 * limb32 m 2 + limb32 h 1 * limb32 m 1 + limb32 h 2 * limb32 m 0"
  and diag_3: "diag h m 3 = limb32 h 0 * limb32 m 3 + limb32 h 1 * limb32 m 2 + limb32 h 2 * limb32 m 1 + limb32 h 3 * limb32 m 0"
  and diag_4: "diag h m 4 = limb32 h 1 * limb32 m 3 + limb32 h 2 * limb32 m 2 + limb32 h 3 * limb32 m 1"
  and diag_5: "diag h m 5 = limb32 h 2 * limb32 m 3 + limb32 h 3 * limb32 m 2"
  and diag_6: "diag h m 6 = limb32 h 3 * limb32 m 3"
  by (simp_all add: diag_def upt_rec eval_nat_numeral)

lemma limb32_0: "limb32 x 0 = unat (low x) mod 2 ^ 32"
proof -
  have "(unat (high x) * 2 ^ 64 + unat (low x)) mod 2 ^ 32 = unat (low x) mod 2 ^ 32"
  proof -
    have "unat (high x) * 2 ^ 64 = (unat (high x) * 2 ^ 32) * 2 ^ 32" by simp
    then show ?thesis by (simp only: mod_mult_self3)
  qed
  then show ?thesis by (simp add: limb32_def val128_def)
qed

lemma val128_div_32: "val128 x div 2 ^ 32 = unat (high x) * 2 ^ 32 + unat (low x) div 2 ^ 32"
proof -
  have "unat (high x) * 2 ^ 64 = (unat (high x) * 2 ^ 32) * 2 ^ 32" by simp
  then have "val128 x = (unat (high x) * 2 ^ 32) * 2 ^ 32 + unat (low x)" by (simp only: val128_def)
  then show ?thesis by (simp only: div_mult_self3) simp
qed

lemma val128_div_64: "val128 x div 2 ^ 64 = unat (high x)"
  using unat_lt64 [of "low x"] by (simp add: val128_def)

lemma limb32_1: "limb32 x 1 = unat (low x) div 2 ^ 32"
proof -
  have "unat (low x) div 2 ^ 32 < 2 ^ 32"
    using unat_lt64 [of "low x"] by (simp add: less_mult_imp_div_less)
  then have "(unat (high x) * 2 ^ 32 + unat (low x) div 2 ^ 32) mod 2 ^ 32 = unat (low x) div 2 ^ 32"
    by (simp only: mod_mult_self3 mod_less)
  then show ?thesis unfolding limb32_def using val128_div_32 [of x] by simp
qed

lemma limb32_2: "limb32 x 2 = unat (high x) mod 2 ^ 32"
  unfolding limb32_def using val128_div_64 [of x] by simp

lemma limb32_3: "limb32 x 3 = unat (high x) div 2 ^ 32"
proof -
  have "val128 x div 2 ^ 96 = val128 x div (2 ^ 64 * 2 ^ 32)" by simp
  also have "\<dots> = val128 x div 2 ^ 64 div 2 ^ 32" by (rule div_mult2_eq)
  also have "\<dots> = unat (high x) div 2 ^ 32" by (simp only: val128_div_64)
  finally have a: "val128 x div 2 ^ 96 = unat (high x) div 2 ^ 32" .
  have "unat (high x) div 2 ^ 32 < 2 ^ 32"
    using unat_lt64 [of "high x"] by (simp add: less_mult_imp_div_less)
  then show ?thesis unfolding limb32_def using a by simp
qed

lemma unat_limb_lo: "unat (drop_bit 32 (push_bit 32 w)) = unat w mod 2 ^ 32" for w :: uint64
  unfolding unat_shr unat_shl using shl_shr_mod [of "unat w" 32 32] by simp

lemma word_limb0: "unat (drop_bit 32 (push_bit 32 (low x))) = limb32 x 0"
  by (simp only: unat_limb_lo limb32_0)

lemma word_limb1: "unat (drop_bit 32 (low x)) = limb32 x 1"
  by (simp only: unat_shr limb32_1)

lemma word_limb2: "unat (drop_bit 32 (push_bit 32 (high x))) = limb32 x 2"
  by (simp only: unat_limb_lo limb32_2)

lemma word_limb3: "unat (drop_bit 32 (high x)) = limb32 x 3"
  by (simp only: unat_shr limb32_3)

lemma unat_c0: "unat (a0 * b0) = (unat a0 * unat b0) mod 2 ^ 64" for a0 b0 :: uint64
  by (rule unat_mult64)

lemma unat_c2:
  "unat (a0 * b0 + a1 * b1) = (unat a0 * unat b0 + unat a1 * unat b1) mod 2 ^ 64"
  for a0 b0 a1 b1 :: uint64
  by (simp add: unat_word_ariths mod_simps)

lemma unat_c3:
  "unat (a0 * b0 + a1 * b1 + a2 * b2) =
     (unat a0 * unat b0 + unat a1 * unat b1 + unat a2 * unat b2) mod 2 ^ 64"
  for a0 b0 a1 b1 a2 b2 :: uint64
  by (simp add: unat_word_ariths mod_simps)

lemma unat_c4:
  "unat (a0 * b0 + a1 * b1 + a2 * b2 + a3 * b3) =
     (unat a0 * unat b0 + unat a1 * unat b1 + unat a2 * unat b2 + unat a3 * unat b3) mod 2 ^ 64"
  for a0 b0 a1 b1 a2 b2 a3 b3 :: uint64
  by (simp add: unat_word_ariths mod_simps)

lemma unat_add3: "unat (x + y + z) = (unat x + unat y + unat z) mod 2 ^ 64" for x y z :: uint64
  by (simp add: unat_word_ariths mod_simps)

lemma unat_add4:
  "unat (x + y + z + w) = (unat x + unat y + unat z + unat w) mod 2 ^ 64" for x y z w :: uint64
  by (simp add: unat_word_ariths mod_simps)

lemma hashMulAdd_limbs:
  "unat (high (hashMulAdd h m a)) = spec_combine_high h m a
   \<and> unat (low (hashMulAdd h m a)) = spec_combine_low h m a"
proof -
  define a0 a1 a23 where "a0 = drop_bit 32 (push_bit 32 (low a))"
    and "a1 = drop_bit 32 (low a)" and "a23 = high a"
  define m0 m1 m2 m3 where "m0 = drop_bit 32 (push_bit 32 (low m))"
    and "m1 = drop_bit 32 (low m)" and "m2 = drop_bit 32 (push_bit 32 (high m))"
    and "m3 = drop_bit 32 (high m)"
  define h0 h1 h2 h3 where "h0 = drop_bit 32 (push_bit 32 (low h))"
    and "h1 = drop_bit 32 (low h)" and "h2 = drop_bit 32 (push_bit 32 (high h))"
    and "h3 = drop_bit 32 (high h)"
  define c0 c1 c2 c3 c4 c5 c6 where "c0 = h0 * m0" and "c1 = h0 * m1 + h1 * m0"
    and "c2 = h0 * m2 + h1 * m1 + h2 * m0" and "c3 = h0 * m3 + h1 * m2 + h2 * m1 + h3 * m0"
    and "c4 = h1 * m3 + h2 * m2 + h3 * m1" and "c5 = h2 * m3 + h3 * m2" and "c6 = h3 * m3"
  define r2 where "r2 = c2 + push_bit 1 c6 + a23"
  define r3 where "r3 = c3 + drop_bit 32 r2"
  define r0 where "r0 = c0 + push_bit 1 c4 + a0 + drop_bit 31 r3"
  define r1 where "r1 = c1 + push_bit 1 c5 + a1 + drop_bit 32 r0"
  have res: "hashMulAdd h m a = Uint128
      ((drop_bit 1 (push_bit 33 r3) OR drop_bit 32 (push_bit 32 r2)) + drop_bit 32 r1)
      (push_bit 32 r1 OR drop_bit 32 (push_bit 32 r0))"
    unfolding hashMulAdd_def Let_def r1_def r0_def r3_def r2_def
      c0_def c1_def c2_def c3_def c4_def c5_def c6_def
      h0_def h1_def h2_def h3_def m0_def m1_def m2_def m3_def a0_def a1_def a23_def ..
  have uh: "unat h0 = limb32 h 0" "unat h1 = limb32 h 1" "unat h2 = limb32 h 2"
      "unat h3 = limb32 h 3"
    unfolding h0_def h1_def h2_def h3_def
    by (rule word_limb0 word_limb1 word_limb2 word_limb3)+
  have um: "unat m0 = limb32 m 0" "unat m1 = limb32 m 1" "unat m2 = limb32 m 2"
      "unat m3 = limb32 m 3"
    unfolding m0_def m1_def m2_def m3_def
    by (rule word_limb0 word_limb1 word_limb2 word_limb3)+
  have ua: "unat a0 = val128 a mod 2 ^ 32" "unat a1 = val128 a div 2 ^ 32 mod 2 ^ 32"
      "unat a23 = val128 a div 2 ^ 64"
    unfolding a0_def a1_def a23_def
    using word_limb0 [of a] word_limb1 [of a] val128_div_64 [of a]
    by (simp_all add: limb32_def)
  have uc: "unat c0 = spec_c h m 0" "unat c1 = spec_c h m 1" "unat c2 = spec_c h m 2"
      "unat c3 = spec_c h m 3" "unat c4 = spec_c h m 4" "unat c5 = spec_c h m 5"
      "unat c6 = spec_c h m 6"
    unfolding c0_def c1_def c2_def c3_def c4_def c5_def c6_def spec_c_def
      diag_0 diag_1 diag_2 diag_3 diag_4 diag_5 diag_6
      unat_c0 unat_c2 unat_c3 unat_c4 uh um
    by (rule refl)+
  have ur2: "unat r2 = spec_r2 h m a"
    unfolding r2_def spec_r2_def unat_add3 unat_shl uc ua by simp
  have ur3: "unat r3 = spec_r3 h m a"
    unfolding r3_def spec_r3_def unat_add64 unat_shr ur2 uc ..
  have ur0: "unat r0 = spec_r0 h m a"
    unfolding r0_def spec_r0_def unat_add4 unat_shl unat_shr ur3 uc ua by simp
  have ur1: "unat r1 = spec_r1 h m a"
    unfolding r1_def spec_r1_def unat_add4 unat_shl unat_shr ur0 uc ua by simp
  have "unat (high (hashMulAdd h m a)) = spec_combine_high h m a"
    unfolding res Uint128.sel spec_combine_high_def unat_add64 unat_or unat_shr unat_shl
      ur0 ur1 ur2 ur3 by simp
  moreover have "unat (low (hashMulAdd h m a)) = spec_combine_low h m a"
    unfolding res Uint128.sel spec_combine_low_def unat_or unat_shr unat_shl
      ur0 ur1 ur2 ur3 by simp
  ultimately show ?thesis by (rule conjI)
qed

text \<open>
  Claim C5. For all 128-bit \<open>h\<close>, \<open>m\<close>, \<open>a\<close> the limbs of \<^verbatim>\<open>hashMulAdd(h, m, a)\<close> are
  the ones the specification describes: the seven diagonal sums of products of 32-bit
  limbs, the carries \<open>r\<^sub>2, r\<^sub>3, r\<^sub>0, r\<^sub>1\<close> in that order, each modulo \<open>2^64\<close>, and the
  reassembly \<^verbatim>\<open>((r3<<33>>1) | (r2<<32>>32)) + (r1>>32)\<close>,
  \<^verbatim>\<open>(r1<<32) | (r0<<32>>32)\<close>.
\<close>

theorem hashMulAdd_follows_spec:
  "unat (high (hashMulAdd h m a)) = spec_combine_high h m a
   \<and> unat (low (hashMulAdd h m a)) = spec_combine_low h m a"
  by (rule hashMulAdd_limbs)

subsection \<open>The congruence modulo \<open>2^127 - 1\<close>\<close>

lemma or_is_add: "x * 2 ^ n OR y = x * 2 ^ n + y" if "y < 2 ^ n" for x y :: nat
proof -
  have y: "take_bit n y = y" using that by (simp add: take_bit_nat_eq_self)
  have "push_bit n x + take_bit n y = push_bit n x OR take_bit n y"
    by (rule disjunctive_add) (auto simp: bit_simps)
  then show ?thesis by (simp add: y push_bit_eq_mult)
qed

lemma shl33_shr1: "R * 2 ^ 33 mod 2 ^ 64 div 2 = (R mod 2 ^ 31) * 2 ^ 32" for R :: nat
proof -
  have "R * 2 ^ 33 mod 2 ^ 64 = 2 ^ 33 * R mod (2 ^ 33 * 2 ^ 31)"
    by (simp add: mult.commute)
  also have "\<dots> = 2 ^ 33 * (R mod 2 ^ 31)" by (rule mult_mod_right [symmetric])
  also have "\<dots> = (R mod 2 ^ 31) * 2 ^ 32 * 2" by simp
  finally show ?thesis by simp
qed

lemma shl32_mod: "R * 2 ^ 32 mod 2 ^ 64 = (R mod 2 ^ 32) * 2 ^ 32" for R :: nat
proof -
  have "R * 2 ^ 32 mod 2 ^ 64 = 2 ^ 32 * R mod (2 ^ 32 * 2 ^ 32)"
    by (simp add: mult.commute)
  also have "\<dots> = 2 ^ 32 * (R mod 2 ^ 32)" by (rule mult_mod_right [symmetric])
  finally show ?thesis by (simp only: mult.commute)
qed

lemma shl32_shr32: "R * 2 ^ 32 mod 2 ^ 64 div 2 ^ 32 = R mod 2 ^ 32" for R :: nat
  using shl_shr_mod [of R 32 32] by simp

lemma split_hi: "(a + b * 2 ^ 32) * 2 ^ 64 = a * 2 ^ 64 + b * 2 ^ 96" for a b :: nat
  by (simp add: algebra_simps)

lemma limb_sum:
  "val128 x = limb32 x 0 + limb32 x 1 * 2 ^ 32 + limb32 x 2 * 2 ^ 64 + limb32 x 3 * 2 ^ 96"
proof -
  have "unat (high x) * 2 ^ 64 =
      (unat (high x) mod 2 ^ 32 + unat (high x) div 2 ^ 32 * 2 ^ 32) * 2 ^ 64"
    by (simp only: mod_div_mult_eq)
  also have "\<dots> = unat (high x) mod 2 ^ 32 * 2 ^ 64 + unat (high x) div 2 ^ 32 * 2 ^ 96"
    by (rule split_hi)
  finally have hi: "unat (high x) * 2 ^ 64 =
      unat (high x) mod 2 ^ 32 * 2 ^ 64 + unat (high x) div 2 ^ 32 * 2 ^ 96" .
  have lo: "unat (low x) = unat (low x) mod 2 ^ 32 + unat (low x) div 2 ^ 32 * 2 ^ 32"
    by (simp only: mod_div_mult_eq)
  have "val128 x = (unat (low x) mod 2 ^ 32 + unat (low x) div 2 ^ 32 * 2 ^ 32)
      + (unat (high x) mod 2 ^ 32 * 2 ^ 64 + unat (high x) div 2 ^ 32 * 2 ^ 96)"
    unfolding val128_def hi lo [symmetric] by (rule add.commute)
  then show ?thesis
    unfolding limb32_0 limb32_1 limb32_2 limb32_3 by (simp only: add.assoc)
qed

lemma poly_mul:
  "(h0 + h1 * X + h2 * X ^ 2 + h3 * X ^ 3) * (m0 + m1 * X + m2 * X ^ 2 + m3 * X ^ 3) =
     h0 * m0 + (h0 * m1 + h1 * m0) * X + (h0 * m2 + h1 * m1 + h2 * m0) * X ^ 2
     + (h0 * m3 + h1 * m2 + h2 * m1 + h3 * m0) * X ^ 3
     + X ^ 4 * ((h1 * m3 + h2 * m2 + h3 * m1) + (h2 * m3 + h3 * m2) * X + (h3 * m3) * X ^ 2)"
  for X :: nat
  by (simp add: algebra_simps power2_eq_square power3_eq_cube power4_eq_xxxx)

lemma split3: "v = v mod 2 ^ 32 + v div 2 ^ 32 mod 2 ^ 32 * 2 ^ 32 + v div 2 ^ 64 * 2 ^ 64"
  for v :: nat
proof -
  have "v div 2 ^ 64 = v div 2 ^ 32 div 2 ^ 32"
    by (simp add: div_mult2_eq [symmetric])
  then have "v div 2 ^ 32 = v div 2 ^ 32 mod 2 ^ 32 + v div 2 ^ 64 * 2 ^ 32"
    by (simp only: mod_div_mult_eq)
  then have "v div 2 ^ 32 * 2 ^ 32 = v div 2 ^ 32 mod 2 ^ 32 * 2 ^ 32 + v div 2 ^ 64 * 2 ^ 64"
    by (simp add: algebra_simps)
  moreover have "v = v mod 2 ^ 32 + v div 2 ^ 32 * 2 ^ 32"
    by (simp only: mod_div_mult_eq)
  ultimately show ?thesis by (simp only: add.assoc)
qed

text \<open>
  Claim C2, as the code has it. For all 128-bit \<open>h\<close>, \<open>m\<close>, \<open>a\<close> for which none of
  the four 64-bit sums \<open>r\<^sub>0, r\<^sub>1, r\<^sub>2, r\<^sub>3\<close> (hence none of the partial products and
  doublings they add up) wraps around \<open>2^64\<close>, the value of \<^verbatim>\<open>hashMulAdd(h, m, a)\<close> is
  congruent to \<open>value h * value m + value a\<close> modulo \<open>2^127 - 1\<close>.
\<close>

theorem hashMulAdd_congruent_without_wrap:
  assumes "no_wrap h m a"
  shows "val128 (hashMulAdd h m a) mod (2 ^ 127 - 1)
       = (val128 h * val128 m + val128 a) mod (2 ^ 127 - 1)"
proof -
  define X :: nat where "X = 2 ^ 32"
  define P :: nat where "P = 2 ^ 127 - 1"
  define C0 C1 C2 C3 C4 C5 C6 where "C0 = diag h m 0" and "C1 = diag h m 1"
    and "C2 = diag h m 2" and "C3 = diag h m 3" and "C4 = diag h m 4"
    and "C5 = diag h m 5" and "C6 = diag h m 6"
  define A0 A1 A23 where "A0 = val128 a mod 2 ^ 32" and "A1 = val128 a div 2 ^ 32 mod 2 ^ 32"
    and "A23 = val128 a div 2 ^ 64"
  define R2 where "R2 = C2 + C6 * 2 + A23"
  define q2 s2 where "q2 = R2 div 2 ^ 32" and "s2 = R2 mod 2 ^ 32"
  define R3 where "R3 = C3 + q2"
  define q3 s3 where "q3 = R3 div 2 ^ 31" and "s3 = R3 mod 2 ^ 31"
  define R0 where "R0 = C0 + C4 * 2 + A0 + q3"
  define q0 s0 where "q0 = R0 div 2 ^ 32" and "s0 = R0 mod 2 ^ 32"
  define R1 where "R1 = C1 + C5 * 2 + A1 + q0"
  define q1 s1 where "q1 = R1 div 2 ^ 32" and "s1 = R1 mod 2 ^ 32"
  note Cs = C0_def C1_def C2_def C3_def C4_def C5_def C6_def
  note As = A0_def A1_def A23_def
  have w2: "wide_r2 h m a = R2"
    by (simp only: wide_r2_def R2_def Cs As)
  have w3: "wide_r3 h m a = R3"
    by (simp only: wide_r3_def w2 R3_def q2_def Cs)
  have w0: "wide_r0 h m a = R0"
    by (simp only: wide_r0_def w3 R0_def q3_def Cs As)
  have w1: "wide_r1 h m a = R1"
    by (simp only: wide_r1_def w0 R1_def q0_def Cs As)
  from assms have b: "R0 < 2 ^ 64" "R1 < 2 ^ 64" "R2 < 2 ^ 64" "R3 < 2 ^ 64"
    by (simp_all only: no_wrap_def w0 w1 w2 w3)
  have c6: "C6 * 2 mod 2 ^ 64 = C6 * 2" and c5: "C5 * 2 mod 2 ^ 64 = C5 * 2"
    and c4: "C4 * 2 mod 2 ^ 64 = C4 * 2"
    using b by (simp_all add: R0_def R1_def R2_def)
  have sc: "spec_c h m 0 = C0" "spec_c h m 1 = C1" "spec_c h m 2 = C2" "spec_c h m 3 = C3"
    "spec_c h m 4 = C4" "spec_c h m 5 = C5" "spec_c h m 6 = C6"
    unfolding spec_c_def Cs [symmetric]
    using b by (simp_all add: R0_def R1_def R2_def R3_def)
  have r2: "spec_r2 h m a = R2"
    unfolding spec_r2_def sc c6 As [symmetric] R2_def [symmetric] using b by simp
  have r3: "spec_r3 h m a = R3"
    unfolding spec_r3_def sc r2 q2_def [symmetric] R3_def [symmetric] using b by simp
  have r0: "spec_r0 h m a = R0"
    unfolding spec_r0_def sc c4 r3 As [symmetric] q3_def [symmetric] R0_def [symmetric]
    using b by simp
  have r1: "spec_r1 h m a = R1"
    unfolding spec_r1_def sc c5 r0 As [symmetric] q0_def [symmetric] R1_def [symmetric]
    using b by simp
  have sb: "s3 < 2 ^ 31" "s2 < 2 ^ 32" "s1 < 2 ^ 32" "s0 < 2 ^ 32" "q1 < 2 ^ 32"
    using b by (simp_all add: s3_def s2_def s1_def s0_def q1_def less_mult_imp_div_less)
  have hi: "spec_combine_high h m a = s3 * 2 ^ 32 + s2 + q1"
  proof -
    have "spec_combine_high h m a = ((s3 * 2 ^ 32 OR s2) + q1) mod 2 ^ 64"
      unfolding spec_combine_high_def r1 r2 r3 shl33_shr1 shl32_shr32
        s3_def s2_def q1_def ..
    also have "s3 * 2 ^ 32 OR s2 = s3 * 2 ^ 32 + s2"
      using sb by (intro or_is_add)
    also have "(s3 * 2 ^ 32 + s2 + q1) mod 2 ^ 64 = s3 * 2 ^ 32 + s2 + q1"
      using sb by (intro mod_less) simp
    finally show ?thesis .
  qed
  have lo: "spec_combine_low h m a = s1 * 2 ^ 32 + s0"
  proof -
    have "spec_combine_low h m a = (s1 * 2 ^ 32 OR s0)"
      unfolding spec_combine_low_def r0 r1 shl32_shr32
      unfolding shl32_mod s1_def s0_def ..
    also have "\<dots> = s1 * 2 ^ 32 + s0"
      using sb by (intro or_is_add)
    finally show ?thesis .
  qed
  have X2: "(2 :: nat) ^ 64 = X ^ 2" and X3: "(2 :: nat) ^ 96 = X ^ 3"
    and X1: "(2 :: nat) ^ 32 = X"
    by (simp_all add: X_def)
  have PX: "2 ^ 31 * X ^ 3 = P + 1" and X4: "X ^ 4 = 2 * P + 2"
    by (simp_all add: X_def P_def)
  define V where "V = val128 (hashMulAdd h m a)"
  have V: "V = (s3 * X + s2 + q1) * X ^ 2 + (s1 * X + s0)"
    unfolding V_def val128_def
    using hashMulAdd_limbs [of h m a] by (simp only: hi lo X1 X2)
  have d0: "R0 = s0 + q0 * X" and d1: "R1 = s1 + q1 * X" and d2: "R2 = s2 + q2 * X"
    unfolding s0_def q0_def s1_def q1_def s2_def q2_def X1 [symmetric]
    by (simp_all only: mod_div_mult_eq)
  have d3: "R3 = s3 + q3 * 2 ^ 31"
    unfolding s3_def q3_def by (simp only: mod_div_mult_eq)
  have d3': "R3 * X ^ 3 = s3 * X ^ 3 + q3 * (P + 1)"
  proof -
    have "R3 * X ^ 3 = s3 * X ^ 3 + q3 * (2 ^ 31 * X ^ 3)"
      by (subst d3) (simp only: algebra_simps)
    then show ?thesis by (simp only: PX)
  qed
  define E where "E = (C0 + C4 * 2 + A0) + (C1 + C5 * 2 + A1) * X + R2 * X ^ 2 + C3 * X ^ 3"
  define T where "T = R0 + R1 * X + R2 * X ^ 2 + R3 * X ^ 3"
  have T1: "E + (q3 + q0 * X + q2 * X ^ 3) = T"
    unfolding E_def T_def R0_def R1_def R3_def by (simp add: algebra_simps)
  have T2: "(V + q3 * P) + (q3 + q0 * X + q2 * X ^ 3) = T"
  proof -
    have "T = (s0 + q0 * X) + (s1 + q1 * X) * X + (s2 + q2 * X) * X ^ 2
        + (s3 * X ^ 3 + q3 * (P + 1))"
      unfolding T_def d3' using d0 d1 d2 by (simp only:)
    then show ?thesis
      unfolding V by (simp add: algebra_simps power2_eq_square power3_eq_cube)
  qed
  from T1 T2 have EV: "E = V + q3 * P" by simp
  define S where "S = C4 + C5 * X + C6 * X ^ 2"
  have hm: "val128 h * val128 m =
      C0 + C1 * X + C2 * X ^ 2 + C3 * X ^ 3 + X ^ 4 * S"
    unfolding limb_sum [of h] limb_sum [of m] X1 X2 X3 S_def Cs
      diag_0 diag_1 diag_2 diag_3 diag_4 diag_5 diag_6
    by (rule poly_mul)
  have "val128 a = A0 + A1 * 2 ^ 32 + A23 * 2 ^ 64"
    unfolding As by (rule split3)
  then have va: "val128 a = A0 + A1 * X + A23 * X ^ 2"
    by (simp only: X1 X2)
  have "val128 h * val128 m + val128 a = E + P * (2 * S)"
    unfolding hm va E_def R2_def X4 S_def
    by (simp add: algebra_simps)
  then have "(val128 h * val128 m + val128 a) mod P = E mod P"
    by (simp only: mod_mult_self2)
  also have "\<dots> = V mod P"
    unfolding EV by (simp only: mod_mult_self1)
  finally show ?thesis
    unfolding V_def P_def by (rule sym)
qed

theorem hashMulAdd_congruent_without_wrap_witness:
  "no_wrap (Uint128 0x3012345678 0x1abcdef012345678) magicRound
     (Uint128 0x3fffffffffffffff 0xffffffffffffffff)
   \<and> val128 (hashMulAdd (Uint128 0x3012345678 0x1abcdef012345678) magicRound
       (Uint128 0x3fffffffffffffff 0xffffffffffffffff)) mod (2 ^ 127 - 1)
     = (val128 (Uint128 0x3012345678 0x1abcdef012345678) * val128 magicRound
        + val128 (Uint128 0x3fffffffffffffff 0xffffffffffffffff)) mod (2 ^ 127 - 1)"
proof -
  have nw: "no_wrap (Uint128 0x3012345678 0x1abcdef012345678) magicRound
     (Uint128 0x3fffffffffffffff 0xffffffffffffffff)"
    unfolding no_wrap_def wide_r0_def wide_r1_def wide_r2_def wide_r3_def
      diag_0 diag_1 diag_2 diag_3 diag_4 diag_5 diag_6
    by (simp add: limb32_def magicRound_def)
  from nw hashMulAdd_congruent_without_wrap [OF nw] show ?thesis by (rule conjI)
qed

text \<open>
  Claim C2 as stated fails at \<open>h = m = 2^64 - 1\<close>, \<open>a = 0\<close>: the partial product
  \<open>c\<^sub>1 = h\<^sub>0 * m\<^sub>1 + h\<^sub>1 * m\<^sub>0 = 2 * (2^32 - 1)^2\<close> does not fit 64 bits and its top bit is
  lost.
\<close>

theorem hashMulAdd_wrap_breaks_congruence:
  "hashMulAdd (Uint128 0 0xFFFFFFFFFFFFFFFF) (Uint128 0 0xFFFFFFFFFFFFFFFF) (Uint128 0 0)
     = Uint128 9223372032559808510 2
   \<and> val128 (Uint128 9223372032559808510 2) mod (2 ^ 127 - 1)
     \<noteq> (val128 (Uint128 0 0xFFFFFFFFFFFFFFFF) * val128 (Uint128 0 0xFFFFFFFFFFFFFFFF)
        + val128 (Uint128 0 0)) mod (2 ^ 127 - 1)"
proof -
  have "hashMulAdd (Uint128 0 0xFFFFFFFFFFFFFFFF) (Uint128 0 0xFFFFFFFFFFFFFFFF) (Uint128 0 0)
     = Uint128 9223372032559808510 2"
    by (simp add: hashMulAdd_def Let_def)
  moreover have "val128 (Uint128 9223372032559808510 2) mod (2 ^ 127 - 1)
     \<noteq> (val128 (Uint128 0 0xFFFFFFFFFFFFFFFF) * val128 (Uint128 0 0xFFFFFFFFFFFFFFFF)
        + val128 (Uint128 0 0)) mod (2 ^ 127 - 1)"
    by simp
  ultimately show ?thesis by (rule conjI)
qed

section \<open>The finaliser\<close>

text \<open>Line 62 adds to the element of index 0, the high limb.\<close>

lemma final_add_len_limbs:
  "final_add_len h t = Uint128 (high h + of_nat (t * 8)) (low h)"
  by (simp add: final_add_len_def Add_def word_less_nat_alt)

lemma final_add_len_val:
  "val128 (final_add_len h t) = (val128 h + t * 8 * 2 ^ 64) mod 2 ^ 128"
proof -
  have "val128 (final_add_len h t) = (val128 h + val128 (Uint128 (of_nat (t * 8)) 0)) mod 2 ^ 128"
    unfolding final_add_len_def by (rule val128_Add)
  also have "val128 (Uint128 (of_nat (t * 8)) 0) = (t * 8) mod 2 ^ 64 * 2 ^ 64"
    unfolding val128_Uint128 unat_of_nat by simp
  also have "(val128 h + (t * 8) mod 2 ^ 64 * 2 ^ 64) mod 2 ^ 128 =
      (val128 h + t * 8 * 2 ^ 64) mod 2 ^ 128"
  proof -
    have "(t * 8) mod 2 ^ 64 * 2 ^ 64 = (t * 8 * 2 ^ 64) mod (2 ^ 64 * 2 ^ 64)"
      by (simp only: mult_mod_left)
    then have "(t * 8) mod 2 ^ 64 * 2 ^ 64 = (t * 8 * 2 ^ 64) mod 2 ^ 128"
      by simp
    then show ?thesis by (simp only: mod_add_right_eq)
  qed
  finally show ?thesis .
qed

text \<open>
  Claim C1, as the code has it. The first step of the finaliser adds \<open>tailLen * 8\<close> to
  the high limb (index 0 of the \<^verbatim>\<open>Uint128\<close>) and leaves the low limb as it is: the
  128-bit value grows by \<open>tailLen * 8 * 2^64\<close>, modulo \<open>2^128\<close>.
\<close>

theorem final_add_len_adds_to_high_limb:
  "final_add_len h tailLen = Uint128 (high h + of_nat (tailLen * 8)) (low h)
   \<and> val128 (final_add_len h tailLen) = (val128 h + tailLen * 8 * 2 ^ 64) mod 2 ^ 128"
  using final_add_len_limbs [of h tailLen] final_add_len_val [of h tailLen]
  by (simp only: simp_thms)

text \<open>
  Claim C1 as stated fails on the one-byte input \<open>[0]\<close>: the tail has 8 bits, the low
  limb of the accumulator does not change, the high limb grows by 8, and the value
  does not grow by 8.
\<close>

theorem final_add_len_one_byte_input:
  "hash_absorb [0] = Some (Uint128 9142608286807165148 10175074184980765184)
   \<and> final_add_len (Uint128 9142608286807165148 10175074184980765184) (length [0 :: byte] mod 128)
       = Uint128 9142608286807165156 10175074184980765184
   \<and> val128 (final_add_len (Uint128 9142608286807165148 10175074184980765184)
        (length [0 :: byte] mod 128))
       \<noteq> (val128 (Uint128 9142608286807165148 10175074184980765184)
            + (length [0 :: byte] mod 128) * 8) mod 2 ^ 128"
proof -
  have "hash_absorb [0] = Some (Uint128 9142608286807165148 10175074184980765184)"
    by code_simp
  then show ?thesis
    by (simp add: final_add_len_limbs)
qed

lemma final_result_canonical: "final_result h \<le> 0xFFFFFFFFFFFFFEFE"
proof -
  have "(if r > 0xFFFFFFFFFFFFFEFE then r + 0x101 else r) \<le> 0xFFFFFFFFFFFFFEFE" for r :: uint64
  proof (cases "r > 0xFFFFFFFFFFFFFEFE")
    case True
    then have big: "2 ^ 64 - 258 < unat r" by (simp add: word_less_nat_alt)
    have "unat (r + 0x101) = (unat r + unat (0x101 :: uint64)) mod 2 ^ 64" by (rule unat_add64)
    also have "\<dots> = unat r + unat (0x101 :: uint64) - 2 ^ 64"
      using big unat_lt64 [of r] by (intro mod_wrap_once) simp_all
    finally have "unat (r + 0x101) \<le> 256" using unat_lt64 [of r] by simp
    then have "r + 0x101 \<le> 0xFFFFFFFFFFFFFEFE" by (simp add: word_le_nat_alt)
    with True show ?thesis by (simp only: if_True)
  next
    case False
    then have "r \<le> 0xFFFFFFFFFFFFFEFE" by (simp only: not_less)
    with False show ?thesis by (simp only: if_False)
  qed
  then show ?thesis by (simp add: final_result_def Let_def)
qed

text \<open>
  Claim C6. For every input buffer \<^verbatim>\<open>hash\<close> returns a digest, and the digest is at
  most \<^verbatim>\<open>0xFFFFFFFFFFFFFEFE\<close>, that is, strictly below \<open>2^64 - 257\<close>.
\<close>

theorem hash_digest_canonical:
  "\<exists>d. hash input = Some d \<and> d \<le> 0xFFFFFFFFFFFFFEFE \<and> unat d < 2 ^ 64 - 257"
proof -
  let ?d = "hash_finalize (spec_orchestrate input) (length input mod 128)"
  have "?d = final_result (final_reduce (final_reduce (mul64_128
      (fst (final_lanes (final_reduce127 (final_add_len (spec_orchestrate input) (length input mod 128)))))
      (snd (final_lanes (final_reduce127 (final_add_len (spec_orchestrate input) (length input mod 128))))))))"
    by (simp add: hash_finalize_def Let_def case_prod_beta)
  then have le: "?d \<le> 0xFFFFFFFFFFFFFEFE"
    by (simp only: final_result_canonical)
  then have "unat ?d \<le> unat (0xFFFFFFFFFFFFFEFE :: uint64)"
    by (simp only: word_le_nat_alt)
  then have "unat ?d < 2 ^ 64 - 257" by simp
  with le hash_Some [of input] show ?thesis by blast
qed

section \<open>The reduction modulo \<open>2^64 - 257\<close>\<close>

lemma val128_mul64_128: "val128 (mul64_128 a b) = unat a * unat b"
proof -
  define P where "P = unat a * unat b"
  have zp: "uint a * uint b = int P"
    by (simp add: P_def)
  have hi: "unat (word_of_int (drop_bit 64 (int P)) :: uint64) = (P div 2 ^ 64) mod 2 ^ 64"
  proof -
    have "drop_bit 64 (int P) = int (P div 2 ^ 64)"
      by (simp add: drop_bit_eq_div zdiv_int)
    then show ?thesis
      by (simp add: unat_of_nat)
  qed
  have lo: "unat (word_of_int (int P) :: uint64) = P mod 2 ^ 64"
    by (simp add: unat_of_nat)
  have "P < 2 ^ 64 * 2 ^ 64"
    unfolding P_def using unat_lt64 [of a] unat_lt64 [of b]
    by (intro mult_strict_mono) simp_all
  then have "P div 2 ^ 64 < 2 ^ 64"
    by (simp add: less_mult_imp_div_less)
  then have hi': "(P div 2 ^ 64) mod 2 ^ 64 = P div 2 ^ 64" by simp
  have "val128 (mul64_128 a b) = (P div 2 ^ 64) * 2 ^ 64 + P mod 2 ^ 64"
    unfolding mul64_128_def Let_def zp val128_Uint128 hi lo hi' ..
  also have "\<dots> = P" by (rule div_mult_mod_eq)
  finally show ?thesis by (simp only: P_def)
qed


lemma final_reduce_val: "val128 (final_reduce z) = unat (high z) * 257 + unat (low z)"
proof -
  have "val128 (final_reduce z) =
      (val128 (mul64_128 (high z) 0x101) + val128 (Uint128 0 (low z))) mod 2 ^ 128"
    unfolding final_reduce_def by (rule val128_Add)
  also have "val128 (mul64_128 (high z) 0x101) = unat (high z) * 257"
    by (simp add: val128_mul64_128)
  also have "val128 (Uint128 0 (low z)) = unat (low z)" by simp
  also have "(unat (high z) * 257 + unat (low z)) mod 2 ^ 128 = unat (high z) * 257 + unat (low z)"
    using unat_lt64 [of "high z"] unat_lt64 [of "low z"] by (intro mod_less) simp
  finally show ?thesis .
qed

lemma fold_mod_p: "(hi * 2 ^ 64 + lo) mod (2 ^ 64 - 257) = (hi * 257 + lo) mod (2 ^ 64 - 257)"
  for hi lo :: nat
proof -
  have "hi * 2 ^ 64 + lo = (hi * 257 + lo) + hi * (2 ^ 64 - 257)" by simp
  then show ?thesis by (simp only: mod_mult_self1)
qed

lemma final_reduce_mod: "val128 (final_reduce z) mod (2 ^ 64 - 257) = val128 z mod (2 ^ 64 - 257)"
  unfolding final_reduce_val by (simp only: val128_def fold_mod_p)

lemma final_reduce_twice_bound: "val128 (final_reduce (final_reduce z)) < 2 ^ 64 + 257 * 257"
proof -
  define w where "w = final_reduce z"
  have "val128 w = unat (high z) * 257 + unat (low z)"
    unfolding w_def by (rule final_reduce_val)
  then have "val128 w < 258 * 2 ^ 64"
    using unat_lt64 [of "high z"] unat_lt64 [of "low z"] by simp
  then have "unat (high w) * 2 ^ 64 < 258 * 2 ^ 64"
    by (simp add: val128_def)
  then have "unat (high w) < 258" by simp
  then have "unat (high w) * 257 + unat (low w) < 2 ^ 64 + 257 * 257"
    using unat_lt64 [of "low w"] by simp
  then show ?thesis
    unfolding w_def [symmetric] final_reduce_val .
qed

lemma canon_step:
  "unat (if r > 0xFFFFFFFFFFFFFEFE then r + 0x101 else r) mod (2 ^ 64 - 257)
     = unat r mod (2 ^ 64 - 257)" for r :: uint64
proof (cases "r > 0xFFFFFFFFFFFFFEFE")
  case True
  then have big: "2 ^ 64 - 257 \<le> unat r" by (simp add: word_less_nat_alt)
  have "unat (r + 0x101) = (unat r + unat (0x101 :: uint64)) mod 2 ^ 64" by (rule unat_add64)
  also have "\<dots> = unat r + unat (0x101 :: uint64) - 2 ^ 64"
    using big unat_lt64 [of r] by (intro mod_wrap_once) simp_all
  also have "\<dots> = unat r - (2 ^ 64 - 257)" using big by simp
  finally have "unat (r + 0x101) mod (2 ^ 64 - 257) = (unat r - (2 ^ 64 - 257)) mod (2 ^ 64 - 257)"
    by (simp only:)
  also have "\<dots> = unat r mod (2 ^ 64 - 257)"
    using big by (rule le_mod_geq [symmetric])
  finally show ?thesis using True by (simp only: if_True)
next
  case False
  then show ?thesis by (simp only: if_False)
qed

lemma final_result_mod:
  assumes "val128 h < 2 ^ 64 + 257 * 257"
  shows "unat (final_result h) mod (2 ^ 64 - 257) = val128 h mod (2 ^ 64 - 257)"
proof (cases "high h = 0")
  case True
  then have "final_result h = (if low h > 0xFFFFFFFFFFFFFEFE then low h + 0x101 else low h)"
    by (simp add: final_result_def Let_def)
  then have "unat (final_result h) mod (2 ^ 64 - 257) = unat (low h) mod (2 ^ 64 - 257)"
    by (simp only: canon_step)
  moreover have "val128 h = unat (low h)" using True by (simp add: val128_def)
  ultimately show ?thesis by (simp only:)
next
  case False
  then have "unat (high h) \<noteq> 0" by (simp add: unat_eq_0)
  moreover from assms have b: "unat (high h) * 2 ^ 64 + unat (low h) < 2 ^ 64 + 257 * 257"
    by (simp only: val128_def)
  ultimately have h1: "unat (high h) = 1" and lo: "unat (low h) < 257 * 257"
    by simp_all
  have "unat (low h + 0x101) = (unat (low h) + unat (0x101 :: uint64)) mod 2 ^ 64"
    by (rule unat_add64)
  also have "\<dots> = unat (low h) + 257" using lo by simp
  finally have r1: "unat (low h + 0x101) = unat (low h) + 257" .
  have "final_result h =
      (if low h + 0x101 > 0xFFFFFFFFFFFFFEFE then low h + 0x101 + 0x101 else low h + 0x101)"
    using False by (simp add: final_result_def Let_def)
  then have "unat (final_result h) mod (2 ^ 64 - 257) = unat (low h + 0x101) mod (2 ^ 64 - 257)"
    by (simp only: canon_step)
  also have "\<dots> = (1 * 257 + unat (low h)) mod (2 ^ 64 - 257)"
    unfolding r1 by (simp add: add.commute)
  also have "\<dots> = (1 * 2 ^ 64 + unat (low h)) mod (2 ^ 64 - 257)"
    by (rule fold_mod_p [symmetric])
  finally show ?thesis by (simp only: val128_def h1)
qed

lemma lane_correct:
  fixes x c :: uint64
  assumes "unat c < 2 ^ 64 - 256"
  shows "unat (if x + c < x then x + c + 0x101 else x + c) mod (2 ^ 64 - 257)
         = (unat x + unat c) mod (2 ^ 64 - 257)"
proof (cases "c + x < x")
  case True
  then have w: "2 ^ 64 \<le> unat c + unat x" by (simp only: add_wrap_iff)
  have "unat (c + x) = (unat c + unat x) mod 2 ^ 64" by (rule unat_add64)
  also have "\<dots> = unat c + unat x - 2 ^ 64"
    using w unat_lt64 [of x] unat_lt64 [of c] by (intro mod_wrap_once) simp_all
  finally have a: "unat (c + x) = unat c + unat x - 2 ^ 64" .
  have "unat (c + x + 0x101) = (unat (c + x) + unat (0x101 :: uint64)) mod 2 ^ 64"
    by (rule unat_add64)
  also have "\<dots> = unat (c + x) + 257"
    unfolding a using assms unat_lt64 [of x] by simp
  also have "\<dots> = unat c + unat x - (2 ^ 64 - 257)"
    unfolding a using w by simp
  finally have "unat (c + x + 0x101) mod (2 ^ 64 - 257)
      = (unat c + unat x - (2 ^ 64 - 257)) mod (2 ^ 64 - 257)"
    by (simp only:)
  also have "\<dots> = (unat c + unat x) mod (2 ^ 64 - 257)"
    using w by (intro le_mod_geq [symmetric]) simp
  finally show ?thesis
    using True by (simp only: add.commute [of x c] add.commute [of "unat x" "unat c"] if_True)
next
  case False
  then have "\<not> 2 ^ 64 \<le> unat c + unat x" unfolding add_wrap_iff .
  then have w: "unat c + unat x < 2 ^ 64" by (rule not_le_imp_less)
  have "unat (c + x) = (unat c + unat x) mod 2 ^ 64" by (rule unat_add64)
  also have "\<dots> = unat c + unat x" using w by simp
  finally show ?thesis
    using False by (simp only: add.commute [of x c] add.commute [of "unat x" "unat c"] if_False)
qed

lemma hash_finalize_mod:
  assumes "final_lanes (final_reduce127 (final_add_len h t)) = (A, B)"
  shows "unat (hash_finalize h t) mod (2 ^ 64 - 257) = (unat A * unat B) mod (2 ^ 64 - 257)"
proof -
  have "hash_finalize h t = final_result (final_reduce (final_reduce (mul64_128 A B)))"
    by (simp add: hash_finalize_def Let_def assms)
  then have "unat (hash_finalize h t) mod (2 ^ 64 - 257)
      = val128 (final_reduce (final_reduce (mul64_128 A B))) mod (2 ^ 64 - 257)"
    by (simp only: final_result_mod [OF final_reduce_twice_bound])
  also have "\<dots> = val128 (mul64_128 A B) mod (2 ^ 64 - 257)"
    by (simp only: final_reduce_mod)
  finally show ?thesis by (simp only: val128_mul64_128)
qed

text \<open>
  Claim C10. The reduction step \<open>h \<mapsto> Add (mul64_128 (high h) 0x101) {0, low h}\<close> never
  overflows 128 bits (its value is \<open>high h * 257 + low h\<close>) and preserves the value
  modulo \<open>2^64 - 257\<close>; the conditional additions of 257 to the two lanes and to the
  result preserve the residue; and for every input buffer the digest is congruent,
  modulo \<open>2^64 - 257\<close>, to the product of the two corrected lanes \<^verbatim>\<open>A\<close> and \<^verbatim>\<open>B\<close>.
\<close>

theorem finalizer_preserves_residue:
  "val128 (final_reduce z) = unat (high z) * 257 + unat (low z)
   \<and> val128 (final_reduce z) mod (2 ^ 64 - 257) = val128 z mod (2 ^ 64 - 257)
   \<and> unat (if x + high magicFinal < x then x + high magicFinal + 0x101
             else x + high magicFinal) mod (2 ^ 64 - 257)
       = (unat x + unat (high magicFinal)) mod (2 ^ 64 - 257)
   \<and> unat (if y + low magicFinal < y then y + low magicFinal + 0x101
             else y + low magicFinal) mod (2 ^ 64 - 257)
       = (unat y + unat (low magicFinal)) mod (2 ^ 64 - 257)
   \<and> unat (final_result (final_reduce (final_reduce z))) mod (2 ^ 64 - 257)
       = val128 z mod (2 ^ 64 - 257)
   \<and> (\<exists>d acc A B. hash input = Some d \<and> hash_absorb input = Some acc
        \<and> final_lanes (final_reduce127 (final_add_len acc (length input mod 128))) = (A, B)
        \<and> unat d mod (2 ^ 64 - 257) = unat A * unat B mod (2 ^ 64 - 257))"
proof (intro conjI)
  show "val128 (final_reduce z) = unat (high z) * 257 + unat (low z)"
    by (rule final_reduce_val)
  show "val128 (final_reduce z) mod (2 ^ 64 - 257) = val128 z mod (2 ^ 64 - 257)"
    by (rule final_reduce_mod)
  show "unat (if x + high magicFinal < x then x + high magicFinal + 0x101
             else x + high magicFinal) mod (2 ^ 64 - 257)
       = (unat x + unat (high magicFinal)) mod (2 ^ 64 - 257)"
    by (rule lane_correct) (simp add: magicFinal_def)
  show "unat (if y + low magicFinal < y then y + low magicFinal + 0x101
             else y + low magicFinal) mod (2 ^ 64 - 257)
       = (unat y + unat (low magicFinal)) mod (2 ^ 64 - 257)"
    by (rule lane_correct) (simp add: magicFinal_def)
  show "unat (final_result (final_reduce (final_reduce z))) mod (2 ^ 64 - 257)
       = val128 z mod (2 ^ 64 - 257)"
    by (simp only: final_result_mod [OF final_reduce_twice_bound] final_reduce_mod)
  let ?acc = "spec_orchestrate input"
  let ?L = "final_lanes (final_reduce127 (final_add_len ?acc (length input mod 128)))"
  have "?L = (fst ?L, snd ?L)" by simp
  then have "unat (hash_finalize ?acc (length input mod 128)) mod (2 ^ 64 - 257)
      = unat (fst ?L) * unat (snd ?L) mod (2 ^ 64 - 257)"
    by (rule hash_finalize_mod)
  with hash_Some [of input] hash_absorb_spec [of input] \<open>?L = (fst ?L, snd ?L)\<close>
  show "\<exists>d acc A B. hash input = Some d \<and> hash_absorb input = Some acc
        \<and> final_lanes (final_reduce127 (final_add_len acc (length input mod 128))) = (A, B)
        \<and> unat d mod (2 ^ 64 - 257) = unat A * unat B mod (2 ^ 64 - 257)"
    by blast
qed

end
